theory Spec2Isabelle
  imports Main
begin

section \<open>The cache-size calculation and the two fixes of the scripts\<close>

text \<open>
  The scripts read the host's file-handle limit and report two numbers
  (\<^verbatim>\<open>show_system_limits\<close> in \<^verbatim>\<open>fix_chromadb_segfault.py\<close>,
  \<^verbatim>\<open>demonstrate_current_limits\<close> in \<^verbatim>\<open>chroma_zero_cache_fix.py\<close>):
  \<^verbatim>\<open>max_file_handles // 5\<close> and \<^verbatim>\<open>max(1, max_file_handles // 5)\<close>.
  Python's integers are unbounded and \<^verbatim>\<open>//\<close> rounds towards minus infinity, which is
  \<open>div\<close> on \<^typ>\<open>int\<close>.
\<close>

definition calculated_hnsw_cache_size :: "int \<Rightarrow> int" where
  "calculated_hnsw_cache_size max_file_handles = max_file_handles div 5"

definition with_fix_hnsw_cache_size :: "int \<Rightarrow> int" where
  "with_fix_hnsw_cache_size max_file_handles = max 1 (max_file_handles div 5)"

text \<open>The three values the function prints, in the order of its \<^verbatim>\<open>print\<close> calls.\<close>

definition show_system_limits :: "int \<Rightarrow> int \<times> int \<times> int" where
  "show_system_limits max_file_handles =
     (max_file_handles,
      calculated_hnsw_cache_size max_file_handles,
      with_fix_hnsw_cache_size max_file_handles)"

definition demonstrate_current_limits :: "int \<Rightarrow> int \<times> int \<times> int" where
  "demonstrate_current_limits max_file_handles =
     (max_file_handles, max_file_handles div 5, max 1 (max_file_handles div 5))"

text \<open>
  The patched initialisers are closures \<^verbatim>\<open>(self, system)\<close> over a captured
  \<^verbatim>\<open>original_init\<close>. Their first statement is the call
  \<^verbatim>\<open>original_init(self, system)\<close>; only when it returns do they read and repair the
  attribute \<^verbatim>\<open>self.hnsw_cache_size\<close>. The captured function belongs to the library,
  which is not part of the repository, so it is a parameter here: it either raises or
  returns the object as it has left it. The scripts bind it to
  \<^verbatim>\<open>rust_module.__init__\<close>, the initialiser of the module object, whose call with
  these arguments raises \<^verbatim>\<open>TypeError\<close>. On the object the attribute is absent
  (\<open>None\<close>) or holds an integer.
\<close>

datatype py_error = AttributeError | TypeError

record rust_api =
  hnsw_cache_size :: "int option"

text \<open>
  \<^verbatim>\<open>patched_init\<close> of \<^verbatim>\<open>fix_chromadb_segfault.py\<close>: after the original
  initialiser, guarded by \<^verbatim>\<open>hasattr\<close>, it replaces the value by 1 only when it is 0.
\<close>

definition patched_init ::
  "(rust_api \<Rightarrow> 's \<Rightarrow> py_error + rust_api) \<Rightarrow> rust_api \<Rightarrow> 's \<Rightarrow> py_error + rust_api" where
  "patched_init original_init self system =
     (case original_init self system of
        Inl e \<Rightarrow> Inl e
      | Inr self' \<Rightarrow>
          (case hnsw_cache_size self' of
             None \<Rightarrow> Inr self'
           | Some v \<Rightarrow>
               if v = 0 then Inr (self'\<lparr>hnsw_cache_size := Some 1\<rparr>) else Inr self'))"

text \<open>
  \<^verbatim>\<open>patched_init_with_fix\<close> of \<^verbatim>\<open>test_hnsw_cache_bug.py\<close>: after the original
  initialiser, the clamping fix
  \<^verbatim>\<open>self.hnsw_cache_size = max(1, self.hnsw_cache_size)\<close>. There is no
  \<^verbatim>\<open>hasattr\<close> guard, so reading a missing attribute raises.
\<close>

definition patched_init_with_fix ::
  "(rust_api \<Rightarrow> 's \<Rightarrow> py_error + rust_api) \<Rightarrow> rust_api \<Rightarrow> 's \<Rightarrow> py_error + rust_api" where
  "patched_init_with_fix original_init self system =
     (case original_init self system of
        Inl e \<Rightarrow> Inl e
      | Inr self' \<Rightarrow>
          (case hnsw_cache_size self' of
             None \<Rightarrow> Inl AttributeError
           | Some v \<Rightarrow> Inr (self'\<lparr>hnsw_cache_size := Some (max 1 v)\<rparr>)))"

section \<open>The bounded cache of the specification\<close>

text \<open>
  The repository holds no cache: the scripts only compute and repair the size that the
  library's cache is built with. The component below is the one the specification
  describes in sections 3 and 4.2, written from its wording, with the capacity supplied
  by the scripts' calculation.
\<close>

text \<open>
  Modelled from the spec: the error taxonomy of the cache constructor. Only the
  constructor can fail, and only with \<open>CapacityInvariantViolation\<close> (section 7).
\<close>

datatype cache_error = CapacityInvariantViolation

text \<open>
  Modelled from the spec: \<open>CacheEntry\<close> of section 3, a key, a resource handle and a
  recency marker. The marker is the value of the cache's clock at the entry's last touch.
\<close>

record ('k, 'h) CacheEntry =
  key :: 'k
  handle :: 'h
  recency :: nat

text \<open>
  Modelled from the spec: \<open>BoundedCapacityCache\<close> of section 3. The mapping from keys
  to entries and the ordered recency structure are one list, kept in recency order with
  the least recently used entry first; \<open>clock\<close> counts the touches so far.
\<close>

record ('k, 'h) BoundedCapacityCache =
  capacity :: int
  entries :: "('k, 'h) CacheEntry list"
  clock :: nat

text \<open>
  Modelled from the spec: the result of a mutating operation. \<open>released\<close> lists the
  entries on whose handle the release callback was invoked, in order; \<open>failed\<close> lists
  the keys whose release failed (the partial-failure report of section 4.2).
\<close>

record ('k, 'h) outcome =
  cache :: "('k, 'h) BoundedCapacityCache"
  released :: "('k \<times> 'h) list"
  failed :: "'k list"

text \<open>
  Modelled from the spec: the constructor with its construction-time assertion
  \<open>capacity \<ge> 1\<close> (section 4.2, numeric/edge policy).
\<close>

definition new_cache :: "int \<Rightarrow> cache_error + ('k, 'h) BoundedCapacityCache" where
  "new_cache cap =
     (if cap < 1 then Inl CapacityInvariantViolation
      else Inr \<lparr>capacity = cap, entries = [], clock = 0\<rparr>)"

text \<open>
  Modelled from the spec: finding the entry of a key in the entry list.
\<close>

definition lookup :: "'k \<Rightarrow> ('k, 'h) CacheEntry list \<Rightarrow> ('k, 'h) CacheEntry option" where
  "lookup k es = find (\<lambda>e. key e = k) es"

text \<open>
  Modelled from the spec: removing the entry of a key from the entry list.
\<close>

definition drop_key :: "'k \<Rightarrow> ('k, 'h) CacheEntry list \<Rightarrow> ('k, 'h) CacheEntry list" where
  "drop_key k es = filter (\<lambda>e. key e \<noteq> k) es"

text \<open>
  Modelled from the spec: \<open>get(key)\<close> returns the handle and marks the entry most
  recently used, or returns Miss (\<open>None\<close>) and leaves the cache as it is.
\<close>

definition get :: "'k \<Rightarrow> ('k, 'h) BoundedCapacityCache \<Rightarrow> 'h option \<times> ('k, 'h) BoundedCapacityCache" where
  "get k c =
     (case lookup k (entries c) of
        None \<Rightarrow> (None, c)
      | Some e \<Rightarrow>
          (Some (handle e),
           c\<lparr>entries := drop_key k (entries c) @ [e\<lparr>recency := clock c\<rparr>],
             clock := Suc (clock c)\<rparr>))"

text \<open>
  Modelled from the spec: \<open>put(key, handle)\<close> inserts or replaces the entry and marks
  it most recently used. When the key is new and the cache is at capacity, the least
  recently used entry is evicted first: the release callback is invoked on its handle,
  and the entry is removed whether or not the release succeeds. The spec names the
  release callback for eviction only, so replacing the handle of a present key invokes
  no release.
\<close>

definition put ::
  "('h \<Rightarrow> bool) \<Rightarrow> 'k \<Rightarrow> 'h \<Rightarrow> ('k, 'h) BoundedCapacityCache \<Rightarrow> ('k, 'h) outcome" where
  "put release k h c =
     (let fresh = \<lparr>key = k, handle = h, recency = clock c\<rparr> in
      case lookup k (entries c) of
        Some _ \<Rightarrow>
          \<lparr>cache = c\<lparr>entries := drop_key k (entries c) @ [fresh], clock := Suc (clock c)\<rparr>,
           released = [], failed = []\<rparr>
      | None \<Rightarrow>
          if capacity c \<le> int (length (entries c)) then
            (case entries c of
               [] \<Rightarrow>
                 \<lparr>cache = c\<lparr>entries := [fresh], clock := Suc (clock c)\<rparr>,
                  released = [], failed = []\<rparr>
             | lru # rest \<Rightarrow>
                 \<lparr>cache = c\<lparr>entries := rest @ [fresh], clock := Suc (clock c)\<rparr>,
                  released = [(key lru, handle lru)],
                  failed = (if release (handle lru) then [] else [key lru])\<rparr>)
          else
            \<lparr>cache = c\<lparr>entries := entries c @ [fresh], clock := Suc (clock c)\<rparr>,
             released = [], failed = []\<rparr>)"

text \<open>
  Modelled from the spec: the operations a caller issues, for statements about
  sequences of them.
\<close>

datatype ('k, 'h) operation = Get 'k | Put 'k 'h

text \<open>
  Modelled from the spec: the key an operation touches.
\<close>

fun touched :: "('k, 'h) operation \<Rightarrow> 'k" where
  "touched (Get k) = k"
| "touched (Put k h) = k"

text \<open>
  Modelled from the spec: one operation applied to the cache.
\<close>

fun step :: "('h \<Rightarrow> bool) \<Rightarrow> ('k, 'h) operation \<Rightarrow> ('k, 'h) BoundedCapacityCache \<Rightarrow> ('k, 'h) outcome" where
  "step release (Get k) c = \<lparr>cache = snd (get k c), released = [], failed = []\<rparr>"
| "step release (Put k h) c = put release k h c"

text \<open>
  Modelled from the spec: a sequence of operations applied in order; the release log and
  the failure report accumulate.
\<close>

fun run :: "('h \<Rightarrow> bool) \<Rightarrow> ('k, 'h) operation list \<Rightarrow> ('k, 'h) BoundedCapacityCache \<Rightarrow> ('k, 'h) outcome" where
  "run release [] c = \<lparr>cache = c, released = [], failed = []\<rparr>"
| "run release (x # xs) c =
     (let r = step release x c; r' = run release xs (cache r)
      in \<lparr>cache = cache r', released = released r @ released r', failed = failed r @ failed r'\<rparr>)"

text \<open>
  Modelled from the spec: the well-formedness of a cache state. The capacity is at least
  1, the entries fit in it, keys are unique, and the entries are in strictly increasing
  order of recency marker, all markers below the clock.
\<close>

definition cache_inv :: "('k, 'h) BoundedCapacityCache \<Rightarrow> bool" where
  "cache_inv c \<longleftrightarrow>
     1 \<le> capacity c \<and> int (length (entries c)) \<le> capacity c \<and>
     distinct (map key (entries c)) \<and>
     sorted_wrt (\<lambda>a b. recency a < recency b) (entries c) \<and>
     (\<forall>e \<in> set (entries c). recency e < clock c)"

text \<open>
  Modelled from the spec: a cache that holds nothing, or a single entry under key \<open>k\<close>.
\<close>

definition same_key_state :: "'k \<Rightarrow> ('k, 'h) BoundedCapacityCache \<Rightarrow> bool" where
  "same_key_state k c \<longleftrightarrow> entries c = [] \<or> map key (entries c) = [k]"

text \<open>
  Modelled from the spec: the time of a key's last touch in a history of operations, as
  the position (counted from 1) of the last get or put of that key, and 0 when the
  history has none. A get that misses leaves its key absent, so for a key that is in the
  cache this is the position of its last put or of its last get that hit.
\<close>

fun touch_time :: "'k \<Rightarrow> ('k, 'h) operation list \<Rightarrow> nat" where
  "touch_time k [] = 0"
| "touch_time k (x # xs) =
     (if touch_time k xs = 0 then (if touched x = k then 1 else 0)
      else Suc (touch_time k xs))"

text \<open>
  Modelled from the spec: an entry list in the order of the last touches of its keys in
  the history, the least recently touched first, every key having been touched.
\<close>

definition history_ordered :: "('k, 'h) operation list \<Rightarrow> ('k, 'h) CacheEntry list \<Rightarrow> bool" where
  "history_ordered xs es \<longleftrightarrow>
     sorted_wrt (\<lambda>a b. touch_time (key a) xs < touch_time (key b) xs) es \<and>
     (\<forall>e \<in> set es. 0 < touch_time (key e) xs)"

section \<open>Properties of the calculation\<close>

lemma show_system_limits_agree:
  "show_system_limits m = demonstrate_current_limits m"
  by (simp add: show_system_limits_def demonstrate_current_limits_def
      calculated_hnsw_cache_size_def with_fix_hnsw_cache_size_def)

text \<open>
  Claim C1. For every sample that is not negative, the capacity the scripts compute with
  the fix, \<open>max(1, sample // 5)\<close>, is at least 1 and so never zero.
\<close>

theorem capacity_never_zero:
  assumes "0 \<le> sample"
  shows "1 \<le> with_fix_hnsw_cache_size sample
       \<and> with_fix_hnsw_cache_size sample \<noteq> 0
       \<and> snd (snd (show_system_limits sample)) \<ge> 1"
  by (simp add: with_fix_hnsw_cache_size_def show_system_limits_def)

theorem capacity_never_zero_witness:
  "(0::int) \<le> 0 \<and> 1 \<le> with_fix_hnsw_cache_size 0 \<and> with_fix_hnsw_cache_size 0 \<noteq> 0
   \<and> with_fix_hnsw_cache_size 3 = 1"
  using capacity_never_zero [of 0]
  by (simp add: with_fix_hnsw_cache_size_def)

text \<open>
  Claim C2. With a file-handle limit of 5, the value the reproduction scripts mock, the
  division by 5 gives 1 and not 0, and the capacity with the fix is 1 as well.
\<close>

theorem five_handles_give_capacity_one:
  "calculated_hnsw_cache_size 5 = 1
   \<and> calculated_hnsw_cache_size 5 \<noteq> 0
   \<and> with_fix_hnsw_cache_size 5 = 1
   \<and> show_system_limits 5 = (5, 1, 1)
   \<and> demonstrate_current_limits 5 = (5, 1, 1)"
  by (simp add: calculated_hnsw_cache_size_def with_fix_hnsw_cache_size_def
      show_system_limits_def demonstrate_current_limits_def)

text \<open>
  Claim C3. At sample 0 the scripts' calculation gives capacity 1: the division yields 0
  and the clamp \<open>max(1, 0 // 5)\<close> yields 1, the value that the specification's default
  FALLBACK_CAPACITY would substitute. It is a closed computation, so the result is
  deterministic.
\<close>

theorem zero_sample_gives_one:
  "with_fix_hnsw_cache_size 0 = 1
   \<and> max 1 (calculated_hnsw_cache_size 0) = 1
   \<and> show_system_limits 0 = (0, 0, 1)"
  by (simp add: with_fix_hnsw_cache_size_def calculated_hnsw_cache_size_def
      show_system_limits_def)

text \<open>
  When the captured initialiser raises, as the module object's does, both closures
  propagate the error and neither fix is reached.
\<close>

lemma original_init_raises:
  assumes "original_init self system = Inl e"
  shows "patched_init original_init self system = Inl e"
    and "patched_init_with_fix original_init self system = Inl e"
  using assms by (simp_all add: patched_init_def patched_init_with_fix_def)

text \<open>
  Without the attribute the two closures differ: the guarded one leaves the object alone,
  the clamping one raises.
\<close>

lemma missing_attribute:
  assumes "original_init self system = Inr self'" and "hnsw_cache_size self' = None"
  shows "patched_init original_init self system = Inr self'"
    and "patched_init_with_fix original_init self system = Inl AttributeError"
  using assms by (simp_all add: patched_init_def patched_init_with_fix_def)

text \<open>
  Claim C10. Whenever the original initialiser returns and has produced a non-negative
  integer \<open>v\<close> as \<open>hnsw_cache_size\<close>, the conditional fix (set to 1 only when the
  value is 0) and the clamping fix (\<open>max(1, v)\<close>) return the same object, holding the
  same final value.
\<close>

theorem fixes_agree_on_non_negative:
  assumes "original_init self system = Inr self'"
    and "hnsw_cache_size self' = Some v"
    and "0 \<le> v"
  shows "patched_init_with_fix original_init self system
           = patched_init original_init self system
       \<and> patched_init original_init self system
           = Inr (self'\<lparr>hnsw_cache_size := Some (if v = 0 then 1 else v)\<rparr>)
       \<and> patched_init_with_fix original_init self system
           = Inr (self'\<lparr>hnsw_cache_size := Some (max 1 v)\<rparr>)"
  using assms
  by (auto simp: patched_init_with_fix_def patched_init_def max_def)

theorem fixes_agree_on_non_negative_witness:
  "(\<lambda>(s::rust_api) (u::unit). Inr (s\<lparr>hnsw_cache_size := Some 0\<rparr>) :: py_error + rust_api)
       \<lparr>hnsw_cache_size = None\<rparr> () = Inr \<lparr>hnsw_cache_size = Some 0\<rparr>
   \<and> hnsw_cache_size \<lparr>hnsw_cache_size = Some 0\<rparr> = Some 0
   \<and> (0::int) \<le> 0
   \<and> patched_init_with_fix (\<lambda>s u. Inr (s\<lparr>hnsw_cache_size := Some 0\<rparr>))
         \<lparr>hnsw_cache_size = None\<rparr> ()
       = patched_init (\<lambda>s u. Inr (s\<lparr>hnsw_cache_size := Some 0\<rparr>))
         \<lparr>hnsw_cache_size = None\<rparr> ()
   \<and> patched_init (\<lambda>s u. Inr (s\<lparr>hnsw_cache_size := Some 0\<rparr>))
         \<lparr>hnsw_cache_size = None\<rparr> ()
       = Inr \<lparr>hnsw_cache_size = Some 1\<rparr>"
proof -
  let ?init = "\<lambda>(s::rust_api) (u::unit). Inr (s\<lparr>hnsw_cache_size := Some 0\<rparr>) :: py_error + rust_api"
  have ret: "?init \<lparr>hnsw_cache_size = None\<rparr> () = Inr \<lparr>hnsw_cache_size = Some 0\<rparr>"
    by simp
  have attr: "hnsw_cache_size \<lparr>hnsw_cache_size = Some 0\<rparr> = Some 0"
    by simp
  have nonneg: "(0::int) \<le> 0"
    by simp
  note agree = fixes_agree_on_non_negative
    [where original_init = ?init and self = "\<lparr>hnsw_cache_size = None\<rparr>" and system = "()"
       and self' = "\<lparr>hnsw_cache_size = Some 0\<rparr>" and v = 0]
  from agree ret attr nonneg show ?thesis
    by simp
qed

section \<open>Properties of the bounded cache\<close>

lemmas cache_eval = put_def get_def lookup_def drop_key_def Let_def new_cache_def
  with_fix_hnsw_cache_size_def

subsection \<open>Lookup and length\<close>

lemma lookup_None_iff: "lookup k es = None \<longleftrightarrow> k \<notin> key ` set es"
  by (auto simp: lookup_def find_None_iff)

lemma lookup_SomeD: "lookup k es = Some e \<Longrightarrow> e \<in> set es \<and> key e = k"
  by (auto simp: lookup_def find_Some_iff)

lemma length_drop_key_present:
  "lookup k es = Some e \<Longrightarrow> length (drop_key k es) < length es"
  unfolding drop_key_def
  by (rule length_filter_less [of e]) (auto dest: lookup_SomeD)

lemma capacity_get [simp]: "capacity (snd (get k c)) = capacity c"
  by (simp add: get_def split: option.splits)

lemma capacity_put [simp]: "capacity (cache (put release k h c)) = capacity c"
  by (simp add: put_def Let_def split: option.splits list.splits)

lemma capacity_step [simp]: "capacity (cache (step release x c)) = capacity c"
  by (cases x) simp_all

lemma capacity_run [simp]: "capacity (cache (run release xs c)) = capacity c"
  by (induction xs arbitrary: c) (simp_all add: Let_def)

lemma length_get_le: "length (entries (snd (get k c))) \<le> length (entries c)"
  using length_drop_key_present [of k "entries c"]
  by (auto simp: get_def split: option.splits)

lemma length_put_le:
  assumes "1 \<le> capacity c" and "int (length (entries c)) \<le> capacity c"
  shows "int (length (entries (cache (put release k h c)))) \<le> capacity c"
proof (cases "lookup k (entries c)")
  case (Some e)
  from length_drop_key_present [OF Some] assms show ?thesis
    by (simp add: put_def Let_def Some)
next
  case None
  with assms show ?thesis
    by (auto simp: put_def Let_def split: list.splits)
qed

lemma length_step_le:
  assumes "1 \<le> capacity c" and "int (length (entries c)) \<le> capacity c"
  shows "int (length (entries (cache (step release x c)))) \<le> capacity c"
proof (cases x)
  case (Get k)
  with length_get_le [of k c] assms show ?thesis by simp
next
  case (Put k h)
  with length_put_le [OF assms] show ?thesis by simp
qed

lemma length_run_le:
  assumes "1 \<le> capacity c" and "int (length (entries c)) \<le> capacity c"
  shows "int (length (entries (cache (run release xs c)))) \<le> capacity c"
  using assms
proof (induction xs arbitrary: c)
  case Nil
  then show ?case by simp
next
  case (Cons x xs)
  have "int (length (entries (cache (step release x c)))) \<le> capacity (cache (step release x c))"
    using length_step_le [OF Cons.prems] by simp
  moreover have "1 \<le> capacity (cache (step release x c))"
    using Cons.prems by simp
  ultimately have "int (length (entries (cache (run release xs (cache (step release x c))))))
      \<le> capacity (cache (step release x c))"
    by (rule Cons.IH [rotated])
  then show ?case by (simp add: Let_def)
qed

subsection \<open>The invariant is kept by every operation\<close>

lemma new_cache_inv: "new_cache cap = Inr c \<Longrightarrow> cache_inv c \<and> capacity c = cap \<and> entries c = []"
  by (auto simp: new_cache_def cache_inv_def split: if_splits)

lemma distinct_drop_key: "distinct (map key es) \<Longrightarrow> distinct (map key (drop_key k es))"
  by (simp add: drop_key_def distinct_map_filter)

lemma key_drop_key: "k \<notin> key ` set (drop_key k es)"
  by (auto simp: drop_key_def)

lemma set_drop_key: "set (drop_key k es) \<subseteq> set es"
  by (auto simp: drop_key_def)

lemma sorted_drop_key:
  "sorted_wrt (\<lambda>a b. recency a < recency b) es \<Longrightarrow>
   sorted_wrt (\<lambda>a b. recency a < recency b) (drop_key k es)"
  by (simp add: drop_key_def sorted_wrt_filter)

lemma touch_inv:
  assumes inv: "cache_inv c" and pres: "lookup k (entries c) = Some e" and ke: "key e' = k" and re: "recency e' = clock c"
  shows "cache_inv (c\<lparr>entries := drop_key k (entries c) @ [e'], clock := Suc (clock c)\<rparr>)"
proof -
  have len: "length (drop_key k (entries c)) < length (entries c)"
    by (rule length_drop_key_present [OF pres])
  have old: "\<forall>x \<in> set (drop_key k (entries c)). recency x < clock c"
    using inv set_drop_key [of k "entries c"] by (auto simp: cache_inv_def)
  show ?thesis
    unfolding cache_inv_def
    using inv len old key_drop_key [of k "entries c"] ke re
    by (auto simp: cache_inv_def sorted_wrt_append distinct_drop_key sorted_drop_key less_Suc_eq)
qed

lemma get_inv: "cache_inv c \<Longrightarrow> cache_inv (snd (get k c))"
proof (cases "lookup k (entries c)")
  case None
  assume "cache_inv c"
  with None show ?thesis by (simp add: get_def)
next
  case (Some e)
  assume inv: "cache_inv c"
  have "key e = k" using lookup_SomeD [OF Some] by simp
  then have "cache_inv (c\<lparr>entries := drop_key k (entries c) @ [e\<lparr>recency := clock c\<rparr>], clock := Suc (clock c)\<rparr>)"
    by (intro touch_inv [OF inv Some]) simp_all
  with Some show ?thesis by (simp add: get_def)
qed

lemma put_inv:
  assumes inv: "cache_inv c"
  shows "cache_inv (cache (put release k h c))"
proof (cases "lookup k (entries c)")
  case (Some e)
  have "cache_inv (c\<lparr>entries := drop_key k (entries c) @ [\<lparr>key = k, handle = h, recency = clock c\<rparr>], clock := Suc (clock c)\<rparr>)"
    by (intro touch_inv [OF inv Some]) simp_all
  with Some show ?thesis by (simp add: put_def)
next
  case None
  then have fresh: "k \<notin> key ` set (entries c)" by (simp add: lookup_None_iff)
  show ?thesis
  proof (cases "capacity c \<le> int (length (entries c))")
    case False
    with inv fresh None show ?thesis
      by (auto simp: put_def cache_inv_def sorted_wrt_append less_Suc_eq)
  next
    case True
    show ?thesis
    proof (cases "entries c")
      case Nil
      with inv None True show ?thesis
        by (auto simp: put_def cache_inv_def)
    next
      case (Cons lru rest)
      with inv fresh None True show ?thesis
        by (auto simp: put_def cache_inv_def sorted_wrt_append less_Suc_eq)
    qed
  qed
qed

lemma step_inv: "cache_inv c \<Longrightarrow> cache_inv (cache (step release x c))"
  by (cases x) (simp_all add: get_inv put_inv)

lemma run_inv: "cache_inv c \<Longrightarrow> cache_inv (cache (run release xs c))"
  by (induction xs arbitrary: c) (simp_all add: Let_def step_inv)

lemma evicts_least_recent:
  assumes inv: "cache_inv c" and new: "lookup k (entries c) = None"
    and full: "capacity c \<le> int (length (entries c))"
  shows "\<exists>lru. lru \<in> set (entries c)
          \<and> (\<forall>e \<in> set (entries c). recency lru \<le> recency e)
          \<and> released (put release k h c) = [(key lru, handle lru)]
          \<and> lookup (key lru) (entries (cache (put release k h c))) = None"
proof (cases "entries c")
  case Nil
  with inv full show ?thesis by (simp add: cache_inv_def)
next
  case (Cons lru rest)
  from new have fresh: "k \<notin> key ` set (entries c)" by (simp add: lookup_None_iff)
  have min: "\<forall>e \<in> set (entries c). recency lru \<le> recency e"
    using inv Cons by (auto simp: cache_inv_def)
  have rel: "released (put release k h c) = [(key lru, handle lru)]"
    using new full Cons by (simp add: put_def)
  have ents: "entries (cache (put release k h c))
      = rest @ [\<lparr>key = k, handle = h, recency = clock c\<rparr>]"
    using new full Cons by (simp add: put_def)
  have gone: "lookup (key lru) (entries (cache (put release k h c))) = None"
    unfolding ents using Cons inv fresh by (auto simp: lookup_None_iff cache_inv_def)
  from min rel gone Cons show ?thesis by auto
qed

subsection \<open>Recency markers record the last touch\<close>

lemma lookup_append:
  "lookup k (xs @ ys) = (case lookup k xs of None \<Rightarrow> lookup k ys | Some e \<Rightarrow> Some e)"
  by (induction xs) (simp_all add: lookup_def)

lemma lookup_drop_key [simp]: "lookup k (drop_key k es) = None"
  by (simp add: lookup_None_iff key_drop_key)

lemma entries_put:
  "entries (cache (put release k h c)) =
     (case lookup k (entries c) of
        Some _ \<Rightarrow> drop_key k (entries c)
      | None \<Rightarrow> if capacity c \<le> int (length (entries c)) then tl (entries c) else entries c)
     @ [\<lparr>key = k, handle = h, recency = clock c\<rparr>]"
  by (simp add: put_def Let_def split: option.splits list.splits)

lemma entries_get_hit:
  "lookup k (entries c) = Some e \<Longrightarrow>
   entries (snd (get k c)) = drop_key k (entries c) @ [e\<lparr>recency := clock c\<rparr>]"
  by (simp add: get_def)

lemma lookup_tl_None: "lookup k es = None \<Longrightarrow> lookup k (tl es) = None"
  by (cases es) (auto simp: lookup_None_iff)

lemma put_stamps_touched:
  "lookup k (entries (cache (put release k h c)))
     = Some \<lparr>key = k, handle = h, recency = clock c\<rparr>"
proof -
  have "lookup k [\<lparr>key = k, handle = h, recency = clock c\<rparr>]
      = Some \<lparr>key = k, handle = h, recency = clock c\<rparr>"
    by (simp add: lookup_def)
  then show ?thesis
    by (simp add: entries_put lookup_append lookup_tl_None split: option.splits)
qed

lemma put_keeps_other_stamps:
  assumes "e \<in> set (entries (cache (put release k h c)))" and "key e \<noteq> k"
  shows "e \<in> set (entries c)"
proof -
  have "set (tl (entries c)) \<subseteq> set (entries c)"
    by (cases "entries c") auto
  with assms set_drop_key [of k "entries c"] show ?thesis
    by (auto simp: entries_put split: option.splits if_splits)
qed

lemma get_stamps_touched:
  assumes "lookup k (entries c) = Some e"
  shows "lookup k (entries (snd (get k c))) = Some (e\<lparr>recency := clock c\<rparr>)
       \<and> fst (get k c) = Some (handle e)"
proof -
  have "key e = k" using lookup_SomeD [OF assms] by simp
  then have "lookup k [e\<lparr>recency := clock c\<rparr>] = Some (e\<lparr>recency := clock c\<rparr>)"
    by (simp add: lookup_def)
  with assms show ?thesis
    by (simp add: entries_get_hit lookup_append) (simp add: get_def)
qed

lemma get_keeps_other_stamps:
  assumes "e \<in> set (entries (snd (get k c)))" and "key e \<noteq> k"
  shows "e \<in> set (entries c)"
proof (cases "lookup k (entries c)")
  case None
  with assms show ?thesis by (simp add: get_def)
next
  case (Some e')
  have "key e' = k" using lookup_SomeD [OF Some] by simp
  with assms set_drop_key [of k "entries c"] show ?thesis
    by (auto simp: entries_get_hit [OF Some])
qed

lemma get_miss: "lookup k (entries c) = None \<Longrightarrow> get k c = (None, c)"
  by (simp add: get_def)

subsection \<open>A cache of capacity one\<close>

lemma same_key_step:
  assumes "capacity c = 1" and "same_key_state k c" and "touched x = k"
  shows "released (step release x c) = [] \<and> same_key_state k (cache (step release x c))"
proof (cases x)
  case (Get k')
  with assms show ?thesis
    by (cases "entries c")
       (auto simp: same_key_state_def get_def lookup_def drop_key_def)
next
  case (Put k' h)
  with assms show ?thesis
    by (cases "entries c")
       (auto simp: same_key_state_def put_def lookup_def drop_key_def)
qed

lemma same_key_run:
  assumes "capacity c = 1" and "same_key_state k c" and "\<forall>x \<in> set xs. touched x = k"
  shows "released (run release xs c) = []"
  using assms
proof (induction xs arbitrary: c)
  case Nil
  then show ?case by simp
next
  case (Cons x xs)
  have st: "released (step release x c) = [] \<and> same_key_state k (cache (step release x c))"
    using Cons.prems by (intro same_key_step) simp_all
  have "released (run release xs (cache (step release x c))) = []"
    using Cons.prems st by (intro Cons.IH) simp_all
  with st show ?case by (simp add: Let_def)
qed

lemma new_key_evicts_sole_entry:
  assumes "capacity c = 1" and "entries c = [e]" and "k \<noteq> key e"
  shows "released (put release k h c) = [(key e, handle e)]
       \<and> map key (entries (cache (put release k h c))) = [k]"
  using assms by (auto simp: put_def lookup_def)

subsection \<open>The entry order is the order of last touches\<close>

lemma get_keeps_keys: "key ` set (entries (snd (get k c))) = key ` set (entries c)"
proof (cases "lookup k (entries c)")
  case None
  then show ?thesis by (simp add: get_def)
next
  case (Some e)
  have e: "e \<in> set (entries c)" "key e = k" using lookup_SomeD [OF Some] by simp_all
  have "key ` set (drop_key k (entries c)) = key ` set (entries c) - {k}"
    by (auto simp: drop_key_def)
  with e show ?thesis by (auto simp: entries_get_hit [OF Some])
qed

lemma touch_time_snoc:
  "touch_time k (xs @ [x]) = (if touched x = k then Suc (length xs) else touch_time k xs)"
  by (induction xs) simp_all

lemma touch_time_le: "touch_time k xs \<le> length xs"
  by (induction xs) simp_all

lemma run_append:
  "cache (run release (xs @ ys) c) = cache (run release ys (cache (run release xs c)))"
  by (induction xs arbitrary: c) (simp_all add: Let_def)

lemma run_snoc:
  "cache (run release (xs @ [x]) c) = cache (step release x (cache (run release xs c)))"
  by (simp add: run_append Let_def)

lemma history_untouched:
  assumes "history_ordered xs es" and "touched x \<notin> key ` set es"
  shows "history_ordered (xs @ [x]) es"
proof -
  have same: "touch_time (key e) (xs @ [x]) = touch_time (key e) xs" if "e \<in> set es" for e
  proof -
    from that assms(2) have "touched x \<noteq> key e" by blast
    then show ?thesis by (simp add: touch_time_snoc)
  qed
  have old: "sorted_wrt (\<lambda>a b. touch_time (key a) xs < touch_time (key b) xs) es"
    using assms(1) by (simp add: history_ordered_def)
  have ord: "sorted_wrt (\<lambda>a b. touch_time (key a) (xs @ [x]) < touch_time (key b) (xs @ [x])) es"
  proof (rule sorted_wrt_mono_rel [OF _ old])
    fix a b
    assume "a \<in> set es" and "b \<in> set es"
      and "touch_time (key a) xs < touch_time (key b) xs"
    then show "touch_time (key a) (xs @ [x]) < touch_time (key b) (xs @ [x])"
      by (simp only: same)
  qed
  have pos: "\<forall>e \<in> set es. 0 < touch_time (key e) (xs @ [x])"
  proof
    fix e
    assume e: "e \<in> set es"
    with assms(1) have "0 < touch_time (key e) xs" by (simp add: history_ordered_def)
    then show "0 < touch_time (key e) (xs @ [x])" by (simp only: same [OF e])
  qed
  from ord pos show ?thesis unfolding history_ordered_def by (rule conjI)
qed

lemma history_touched:
  assumes "history_ordered xs es" and "touched x \<notin> key ` set es" and "key e = touched x"
  shows "history_ordered (xs @ [x]) (es @ [e])"
proof -
  have old: "history_ordered (xs @ [x]) es"
    using assms(1,2) by (rule history_untouched)
  have new: "touch_time (key e) (xs @ [x]) = Suc (length xs)"
    using assms(3) by (simp add: touch_time_snoc)
  have below: "touch_time (key a) (xs @ [x]) < touch_time (key e) (xs @ [x])"
    if "a \<in> set es" for a
  proof -
    from that assms(2) have "touched x \<noteq> key a" by blast
    then have "touch_time (key a) (xs @ [x]) = touch_time (key a) xs"
      by (simp add: touch_time_snoc)
    with touch_time_le [of "key a" xs] new show ?thesis by simp
  qed
  have ord: "sorted_wrt (\<lambda>a b. touch_time (key a) (xs @ [x]) < touch_time (key b) (xs @ [x]))
      (es @ [e])"
    using old below by (simp add: sorted_wrt_append history_ordered_def)
  have pos: "\<forall>a \<in> set (es @ [e]). 0 < touch_time (key a) (xs @ [x])"
    using old new by (simp add: history_ordered_def)
  from ord pos show ?thesis unfolding history_ordered_def by (rule conjI)
qed

lemma history_drop_key: "history_ordered xs es \<Longrightarrow> history_ordered xs (drop_key k es)"
  by (auto simp: history_ordered_def drop_key_def sorted_wrt_filter)

lemma history_tl: "history_ordered xs es \<Longrightarrow> history_ordered xs (tl es)"
  by (cases es) (auto simp: history_ordered_def)

lemma step_history:
  assumes "history_ordered xs (entries c)"
  shows "history_ordered (xs @ [x]) (entries (cache (step release x c)))"
proof (cases x)
  case (Get k)
  show ?thesis
  proof (cases "lookup k (entries c)")
    case None
    then have "touched x \<notin> key ` set (entries c)"
      using Get by (simp add: lookup_None_iff)
    with assms have "history_ordered (xs @ [x]) (entries c)"
      by (rule history_untouched)
    with None Get show ?thesis by (simp add: get_def)
  next
    case (Some e)
    have "key e = k" using lookup_SomeD [OF Some] by simp
    then have "history_ordered (xs @ [x]) (drop_key k (entries c) @ [e\<lparr>recency := clock c\<rparr>])"
      using assms Get key_drop_key [of k "entries c"]
      by (intro history_touched history_drop_key) simp_all
    with Some Get show ?thesis by (simp add: entries_get_hit)
  qed
next
  case (Put k h)
  let ?fresh = "\<lparr>key = k, handle = h, recency = clock c\<rparr>"
  show ?thesis
  proof (cases "lookup k (entries c)")
    case (Some e)
    have "history_ordered (xs @ [x]) (drop_key k (entries c) @ [?fresh])"
      using assms Put key_drop_key [of k "entries c"]
      by (intro history_touched history_drop_key) simp_all
    with Some Put show ?thesis by (simp add: entries_put)
  next
    case None
    then have fresh: "k \<notin> key ` set (entries c)" by (simp add: lookup_None_iff)
    have "set (tl (entries c)) \<subseteq> set (entries c)" by (cases "entries c") auto
    with fresh have fresh_tl: "k \<notin> key ` set (tl (entries c))" by auto
    have full: "history_ordered (xs @ [x]) (tl (entries c) @ [?fresh])"
      using assms Put fresh_tl by (intro history_touched history_tl) simp_all
    have room: "history_ordered (xs @ [x]) (entries c @ [?fresh])"
      using assms Put fresh by (intro history_touched) simp_all
    from full room None Put show ?thesis by (simp add: entries_put)
  qed
qed

lemma run_history:
  "history_ordered xs (entries (cache (run release xs \<lparr>capacity = cap, entries = [], clock = 0\<rparr>)))"
proof (induction xs rule: rev_induct)
  case Nil
  show ?case by (simp add: history_ordered_def)
next
  case (snoc x xs)
  then show ?case by (simp add: run_snoc step_history)
qed

lemma evicts_earliest_touched:
  assumes ord: "history_ordered xs (entries c)" and inv: "cache_inv c"
    and new: "lookup k (entries c) = None"
    and full: "capacity c \<le> int (length (entries c))"
  shows "\<exists>lru. lru \<in> set (entries c)
          \<and> 0 < touch_time (key lru) xs
          \<and> (\<forall>e \<in> set (entries c). key e \<noteq> key lru \<longrightarrow>
                touch_time (key lru) xs < touch_time (key e) xs)
          \<and> released (put release k h c) = [(key lru, handle lru)]
          \<and> lookup (key lru) (entries (cache (put release k h c))) = None
          \<and> (\<forall>e \<in> set (entries c). key e \<noteq> key lru \<longrightarrow>
                e \<in> set (entries (cache (put release k h c))))"
proof (cases "entries c")
  case Nil
  with inv full show ?thesis by (simp add: cache_inv_def)
next
  case (Cons lru rest)
  from new have fresh: "k \<notin> key ` set (entries c)" by (simp add: lookup_None_iff)
  have pos: "0 < touch_time (key lru) xs"
    using ord Cons by (simp add: history_ordered_def)
  have least: "\<forall>e \<in> set (entries c). key e \<noteq> key lru \<longrightarrow>
      touch_time (key lru) xs < touch_time (key e) xs"
    using ord Cons by (auto simp: history_ordered_def)
  have rel: "released (put release k h c) = [(key lru, handle lru)]"
    using new full Cons by (simp add: put_def)
  have ents: "entries (cache (put release k h c))
      = rest @ [\<lparr>key = k, handle = h, recency = clock c\<rparr>]"
    using new full Cons by (simp add: put_def)
  have gone: "lookup (key lru) (entries (cache (put release k h c))) = None"
    unfolding ents using Cons inv fresh by (auto simp: lookup_None_iff cache_inv_def)
  have kept: "\<forall>e \<in> set (entries c). key e \<noteq> key lru \<longrightarrow>
      e \<in> set (entries (cache (put release k h c)))"
    unfolding ents using Cons by auto
  have mem: "lru \<in> set (entries c)" using Cons by simp
  from mem pos least rel gone kept show ?thesis by blast
qed

subsection \<open>The claims about the cache\<close>

text \<open>
  Claim C4. From any cache whose capacity is at least 1 and whose entries fit in it,
  after every prefix of every sequence of operations (puts, and gets between them) the
  number of entries is at most the capacity, and the capacity is the one the cache was
  built with.
\<close>

theorem entries_never_exceed_capacity:
  assumes "1 \<le> capacity c" and "int (length (entries c)) \<le> capacity c"
  shows "\<forall>n. int (length (entries (cache (run release (take n xs) c)))) \<le> capacity c
             \<and> capacity (cache (run release (take n xs) c)) = capacity c"
  using assms by (simp add: length_run_le)

theorem entries_never_exceed_capacity_witness:
  "1 \<le> capacity \<lparr>capacity = 1, entries = ([] :: (string, nat) CacheEntry list), clock = 0\<rparr>
   \<and> int (length (entries (cache (run (\<lambda>_. True)
         (take 3 [Put ''k1'' (1::nat), Put ''k2'' 2, Put ''k3'' 3])
         \<lparr>capacity = 1, entries = [], clock = 0\<rparr>)))) \<le> 1
   \<and> map key (entries (cache (run (\<lambda>_. True) [Put ''k1'' (1::nat), Put ''k2'' 2, Put ''k3'' 3]
         \<lparr>capacity = 1, entries = [], clock = 0\<rparr>))) = [''k3'']"
  using entries_never_exceed_capacity
    [of "\<lparr>capacity = 1, entries = ([] :: (string, nat) CacheEntry list), clock = 0\<rparr>"
        "\<lambda>_. True" "[Put ''k1'' (1::nat), Put ''k2'' 2, Put ''k3'' 3]"]
  by (simp add: cache_eval)

text \<open>
  Claim C5. The capacity computed from sample 5 is 1, and the constructor accepts it. On
  that cache, \<open>put k1 h1; put k2 h2\<close> leaves \<open>get k1\<close> a Miss and \<open>get k2\<close>
  returning \<open>h2\<close>, with the release callback invoked exactly once, on \<open>h1\<close>. In any
  cache of capacity 1 that holds one entry, a put of another key releases that entry and
  leaves the new key alone in the cache; and any sequence of gets and puts of one single
  key on a cache of capacity 1 that is empty or holds that key releases nothing.
\<close>

theorem capacity_one_end_to_end:
  "new_cache (with_fix_hnsw_cache_size 5) = Inr \<lparr>capacity = 1, entries = [], clock = 0\<rparr>
   \<and> fst (get ''k1'' (cache (run release [Put ''k1'' h1, Put ''k2'' h2]
               \<lparr>capacity = 1, entries = [], clock = 0\<rparr>))) = None
   \<and> fst (get ''k2'' (cache (run release [Put ''k1'' h1, Put ''k2'' h2]
               \<lparr>capacity = 1, entries = [], clock = 0\<rparr>))) = Some h2
   \<and> released (run release [Put ''k1'' h1, Put ''k2'' h2]
               \<lparr>capacity = 1, entries = [], clock = 0\<rparr>) = [(''k1'', h1)]
   \<and> (\<forall>c e k h. capacity c = 1 \<and> entries c = [e] \<and> k \<noteq> key e \<longrightarrow>
         released (put release k h c) = [(key e, handle e)]
         \<and> map key (entries (cache (put release k h c))) = [k])
   \<and> (\<forall>(c :: ('k, 'h) BoundedCapacityCache) k xs.
         capacity c = 1 \<and> (entries c = [] \<or> map key (entries c) = [k])
         \<and> (\<forall>x \<in> set xs. touched x = k) \<longrightarrow>
         released (run release xs c) = [])"
proof -
  have a: "new_cache (with_fix_hnsw_cache_size 5) = Inr \<lparr>capacity = 1, entries = [], clock = 0\<rparr>"
    by (simp add: cache_eval)
  have b: "fst (get ''k1'' (cache (run release [Put ''k1'' h1, Put ''k2'' h2]
               \<lparr>capacity = 1, entries = [], clock = 0\<rparr>))) = None"
    by (simp add: cache_eval)
  have c: "fst (get ''k2'' (cache (run release [Put ''k1'' h1, Put ''k2'' h2]
               \<lparr>capacity = 1, entries = [], clock = 0\<rparr>))) = Some h2"
    by (simp add: cache_eval)
  have d: "released (run release [Put ''k1'' h1, Put ''k2'' h2]
               \<lparr>capacity = 1, entries = [], clock = 0\<rparr>) = [(''k1'', h1)]"
    by (simp add: cache_eval)
  have e: "\<forall>c e k h. capacity c = 1 \<and> entries c = [e] \<and> k \<noteq> key e \<longrightarrow>
         released (put release k h c) = [(key e, handle e)]
         \<and> map key (entries (cache (put release k h c))) = [k]"
    by (intro allI impI new_key_evicts_sole_entry) simp_all
  have f: "\<forall>(c :: ('k, 'h) BoundedCapacityCache) k xs.
         capacity c = 1 \<and> (entries c = [] \<or> map key (entries c) = [k])
         \<and> (\<forall>x \<in> set xs. touched x = k) \<longrightarrow>
         released (run release xs c) = []"
  proof (intro allI impI)
    fix c :: "('k, 'h) BoundedCapacityCache" and k and xs :: "('k, 'h) operation list"
    assume h: "capacity c = 1 \<and> (entries c = [] \<or> map key (entries c) = [k])
         \<and> (\<forall>x \<in> set xs. touched x = k)"
    then have "same_key_state k c" by (simp add: same_key_state_def)
    with h show "released (run release xs c) = []"
      by (intro same_key_run [of c k]) simp_all
  qed
  from a b c d e f show ?thesis by blast
qed

theorem capacity_one_end_to_end_witness:
  "fst (get ''k1'' (cache (run (\<lambda>_. True) [Put ''k1'' (1::nat), Put ''k2'' 2]
               \<lparr>capacity = 1, entries = [], clock = 0\<rparr>))) = None
   \<and> released (put (\<lambda>_. True) ''k2'' (2::nat)
        \<lparr>capacity = 1, entries = [\<lparr>key = ''k1'', handle = 1, recency = 0\<rparr>], clock = 1\<rparr>)
       = [(''k1'', 1)]
   \<and> released (run (\<lambda>_. True) [Put ''k'' (1::nat), Get ''k'', Put ''k'' 2, Get ''k'']
        \<lparr>capacity = 1, entries = [], clock = 0\<rparr>) = []"
proof -
  let ?one = "\<lparr>capacity = 1,
    entries = [\<lparr>key = ''k1'', handle = 1::nat, recency = 0\<rparr>], clock = 1\<rparr>"
  let ?none = "\<lparr>capacity = 1, entries = ([] :: (string, nat) CacheEntry list), clock = 0\<rparr>"
  let ?ops = "[Put ''k'' (1::nat), Get ''k'', Put ''k'' 2, Get ''k'']"
  note t = capacity_one_end_to_end [where release = "\<lambda>_::nat. True" and ?h1.0 = 1 and ?h2.0 = 2]
  note miss = t [THEN conjunct2, THEN conjunct1]
  note general = t [THEN conjunct2, THEN conjunct2, THEN conjunct2, THEN conjunct2]
  have new_key: "capacity ?one = 1 \<and> entries ?one = [\<lparr>key = ''k1'', handle = 1, recency = 0\<rparr>]
      \<and> ''k2'' \<noteq> key \<lparr>key = ''k1'', handle = 1::nat, recency = 0\<rparr>"
    by simp
  have evict: "released (put (\<lambda>_. True) ''k2'' (2::nat) ?one) = [(''k1'', 1)]"
    using general [THEN conjunct1, rule_format, OF new_key, of 2] by simp
  have same: "capacity ?none = 1 \<and> (entries ?none = [] \<or> map key (entries ?none) = [''k''])
      \<and> (\<forall>x \<in> set ?ops. touched x = ''k'')"
    by simp
  have quiet: "released (run (\<lambda>_. True) ?ops ?none) = []"
    by (rule general [THEN conjunct2, rule_format, OF same])
  from miss evict quiet show ?thesis by (intro conjI)
qed

text \<open>
  The example of claim C6 as it is written does not hold in a cache of capacity 1:
  \<open>put B\<close> has already evicted \<open>A\<close>, so the later \<open>put C\<close> releases \<open>B\<close>, the
  only entry there is.
\<close>

theorem lru_capacity_one_counterexample:
  "\<not> map fst (released (put (\<lambda>_. True) ''C'' (3::nat)
        (cache (run (\<lambda>_. True) [Put ''A'' 1, Put ''B'' 2, Get ''B'']
           \<lparr>capacity = 1, entries = [], clock = 0\<rparr>)))) = [''A'']"
  by (simp add: cache_eval)

text \<open>
  Claim C6, amended. Eviction removes the least recently touched key. In every state
  reached from a constructed cache by a history of gets and puts, a put of a new key into
  a full cache releases exactly one entry: the one whose key was last touched earliest
  in that history among the keys present. That key is absent afterwards and every other
  entry stays. With capacity 2, after \<open>put A; put B; get B\<close> the put of \<open>C\<close> evicts
  \<open>A\<close>, and after \<open>put A; put B; get A\<close> it evicts \<open>B\<close>. With capacity 1,
  \<open>put B\<close> evicts \<open>A\<close> and \<open>put C\<close> evicts \<open>B\<close>.
\<close>

theorem eviction_removes_least_recently_touched:
  assumes "new_cache cap = Inr c0" and "c = cache (run release xs c0)"
    and "lookup k (entries c) = None" and "capacity c \<le> int (length (entries c))"
  shows "(\<exists>lru. lru \<in> set (entries c)
            \<and> 0 < touch_time (key lru) xs
            \<and> (\<forall>e \<in> set (entries c). key e \<noteq> key lru \<longrightarrow>
                  touch_time (key lru) xs < touch_time (key e) xs)
            \<and> released (put release k h c) = [(key lru, handle lru)]
            \<and> lookup (key lru) (entries (cache (put release k h c))) = None
            \<and> (\<forall>e \<in> set (entries c). key e \<noteq> key lru \<longrightarrow>
                  e \<in> set (entries (cache (put release k h c)))))
       \<and> released (put release ''C'' hc
            (cache (run release [Put ''A'' ha, Put ''B'' hb, Get ''B'']
               \<lparr>capacity = 2, entries = [], clock = 0\<rparr>))) = [(''A'', ha)]
       \<and> released (put release ''C'' hc
            (cache (run release [Put ''A'' ha, Put ''B'' hb, Get ''A'']
               \<lparr>capacity = 2, entries = [], clock = 0\<rparr>))) = [(''B'', hb)]
       \<and> released (run release [Put ''A'' ha, Put ''B'' hb, Get ''B'', Put ''C'' hc]
               \<lparr>capacity = 1, entries = [], clock = 0\<rparr>) = [(''A'', ha), (''B'', hb)]"
proof (intro conjI)
  have start: "c0 = \<lparr>capacity = cap, entries = [], clock = 0\<rparr>"
    using assms(1) by (simp add: new_cache_def split: if_splits)
  have "cache_inv c0" using assms(1) by (simp add: new_cache_inv)
  then have inv: "cache_inv c" unfolding assms(2) by (rule run_inv)
  have ord: "history_ordered xs (entries c)"
    unfolding assms(2) start by (rule run_history)
  from ord inv assms(3,4)
  show "\<exists>lru. lru \<in> set (entries c)
            \<and> 0 < touch_time (key lru) xs
            \<and> (\<forall>e \<in> set (entries c). key e \<noteq> key lru \<longrightarrow>
                  touch_time (key lru) xs < touch_time (key e) xs)
            \<and> released (put release k h c) = [(key lru, handle lru)]
            \<and> lookup (key lru) (entries (cache (put release k h c))) = None
            \<and> (\<forall>e \<in> set (entries c). key e \<noteq> key lru \<longrightarrow>
                  e \<in> set (entries (cache (put release k h c))))"
    by (rule evicts_earliest_touched)
next
  show "released (put release ''C'' hc
            (cache (run release [Put ''A'' ha, Put ''B'' hb, Get ''B'']
               \<lparr>capacity = 2, entries = [], clock = 0\<rparr>))) = [(''A'', ha)]"
    by (simp add: cache_eval)
next
  show "released (put release ''C'' hc
            (cache (run release [Put ''A'' ha, Put ''B'' hb, Get ''A'']
               \<lparr>capacity = 2, entries = [], clock = 0\<rparr>))) = [(''B'', hb)]"
    by (simp add: cache_eval)
next
  show "released (run release [Put ''A'' ha, Put ''B'' hb, Get ''B'', Put ''C'' hc]
               \<lparr>capacity = 1, entries = [], clock = 0\<rparr>) = [(''A'', ha), (''B'', hb)]"
    by (simp add: cache_eval)
qed

theorem eviction_removes_least_recently_touched_witness:
  "new_cache 2 = Inr \<lparr>capacity = 2, entries = ([] :: (string, nat) CacheEntry list), clock = 0\<rparr>
   \<and> lookup ''C'' (entries (cache (run (\<lambda>_. True) [Put ''A'' (1::nat), Put ''B'' 2, Get ''A'']
        \<lparr>capacity = 2, entries = [], clock = 0\<rparr>))) = None
   \<and> capacity (cache (run (\<lambda>_. True) [Put ''A'' (1::nat), Put ''B'' 2, Get ''A'']
        \<lparr>capacity = 2, entries = [], clock = 0\<rparr>))
       \<le> int (length (entries (cache (run (\<lambda>_. True) [Put ''A'' (1::nat), Put ''B'' 2, Get ''A'']
        \<lparr>capacity = 2, entries = [], clock = 0\<rparr>))))
   \<and> touch_time ''A'' [Put ''A'' (1::nat), Put ''B'' 2, Get ''A''] = 3
   \<and> touch_time ''B'' [Put ''A'' (1::nat), Put ''B'' 2, Get ''A''] = 2
   \<and> released (put (\<lambda>_. True) ''C'' (3::nat)
        (cache (run (\<lambda>_. True) [Put ''A'' 1, Put ''B'' 2, Get ''A'']
           \<lparr>capacity = 2, entries = [], clock = 0\<rparr>))) = [(''B'', 2)]
   \<and> (\<exists>lru. lru \<in> set (entries (cache (run (\<lambda>_. True) [Put ''A'' (1::nat), Put ''B'' 2, Get ''A'']
           \<lparr>capacity = 2, entries = [], clock = 0\<rparr>)))
         \<and> 0 < touch_time (key lru) [Put ''A'' (1::nat), Put ''B'' 2, Get ''A'']
         \<and> released (put (\<lambda>_. True) ''C'' (3::nat)
              (cache (run (\<lambda>_. True) [Put ''A'' 1, Put ''B'' 2, Get ''A'']
                 \<lparr>capacity = 2, entries = [], clock = 0\<rparr>))) = [(key lru, handle lru)])"
proof -
  let ?init = "\<lparr>capacity = 2, entries = ([] :: (string, nat) CacheEntry list), clock = 0\<rparr>"
  let ?ops = "[Put ''A'' (1::nat), Put ''B'' 2, Get ''A'']"
  let ?st = "cache (run (\<lambda>_. True) ?ops ?init)"
  have h1: "new_cache 2 = Inr ?init" by (simp add: cache_eval)
  have h3: "lookup ''C'' (entries ?st) = None" by (simp add: cache_eval)
  have h4: "capacity ?st \<le> int (length (entries ?st))" by (simp add: cache_eval)
  have ta: "touch_time ''A'' ?ops = 3" by simp
  have tb: "touch_time ''B'' ?ops = 2" by simp
  have r: "released (put (\<lambda>_. True) ''C'' (3::nat) ?st) = [(''B'', 2)]" by (simp add: cache_eval)
  from eviction_removes_least_recently_touched [OF h1 refl h3 h4, of 3, THEN conjunct1]
  have "\<exists>lru. lru \<in> set (entries ?st)
         \<and> 0 < touch_time (key lru) ?ops
         \<and> released (put (\<lambda>_. True) ''C'' (3::nat) ?st) = [(key lru, handle lru)]"
    by blast
  with h1 h3 h4 ta tb r show ?thesis by (intro conjI)
qed

end
